theory Spec2Isabelle
  imports Main
begin

section \<open>Data model (src/utilities.py)\<close>

text \<open>
  A \<open>Line\<close> object stores the number of the line and its content. Python compares two
  lines with \<open>__eq__\<close>, which looks at the text only; the model writes that comparison
  out as \<open>line_eq\<close>.
\<close>

record Line =
  num :: int
  text_of :: string

definition line_eq :: "Line \<Rightarrow> Line \<Rightarrow> bool" where
  "line_eq l r \<longleftrightarrow> text_of l = text_of r"

text \<open>
  The three edit types are the keys of the \<open>SYMBOLS\<close> table. An \<open>Edit\<close> stores
  whatever it is given for \<open>old\<close> and \<open>new\<close>, which may be \<open>None\<close> in Python.
\<close>

datatype edit_kind = Insert | Delete | Equal

record Edit =
  edit_type :: edit_kind
  old :: "Line option"
  new :: "Line option"

fun SYMBOLS :: "edit_kind \<Rightarrow> string" where
  "SYMBOLS Insert = ''+''"
| "SYMBOLS Delete = ''-''"
| "SYMBOLS Equal = '' ''"

definition ESC :: char where
  "ESC = CHR 0x1B"

fun TERM_COLORS :: "edit_kind \<Rightarrow> string" where
  "TERM_COLORS Insert = ESC # ''[92m''"
| "TERM_COLORS Equal = ''''"
| "TERM_COLORS Delete = ESC # ''[91m''"

definition TERM_COLORS_end :: string where
  "TERM_COLORS_end = ESC # ''[0m''"

text \<open>The exceptions the program can raise.\<close>

datatype error = IndexError | SESTooLong | AttributeError

section \<open>Python lists\<close>

text \<open>
  Reading and writing a list by an integer index. A negative index counts from the end
  of the list; an index outside \<open>-len .. len - 1\<close> raises \<open>IndexError\<close>.
\<close>

definition py_pos :: "'a list \<Rightarrow> int \<Rightarrow> nat option" where
  "py_pos xs i =
     (if 0 \<le> i \<and> i < int (length xs) then Some (nat i)
      else if i < 0 \<and> - int (length xs) \<le> i then Some (nat (int (length xs) + i))
      else None)"

definition py_get :: "'a list \<Rightarrow> int \<Rightarrow> error + 'a" where
  "py_get xs i = (case py_pos xs i of None \<Rightarrow> Inl IndexError | Some j \<Rightarrow> Inr (xs ! j))"

definition py_set :: "'a list \<Rightarrow> int \<Rightarrow> 'a \<Rightarrow> error + 'a list" where
  "py_set xs i y = (case py_pos xs i of None \<Rightarrow> Inl IndexError | Some j \<Rightarrow> Inr (xs[j := y]))"

section \<open>The edit-distance search (myers\_diff)\<close>

text \<open>
  The test shared by the search and the backtracking:
  \<open>k == -d or (k != d and v[k - 1] < v[k + 1])\<close>, evaluated left to right with
  Python's short-circuit rules.
\<close>

definition goes_down :: "int \<Rightarrow> int \<Rightarrow> int list \<Rightarrow> error + bool" where
  "goes_down d k v =
     (if k = - d then Inr True
      else if k \<noteq> d then
        (case py_get v (k - 1) of
           Inl e \<Rightarrow> Inl e
         | Inr l \<Rightarrow> (case py_get v (k + 1) of Inl e \<Rightarrow> Inl e | Inr r \<Rightarrow> Inr (l < r)))
      else Inr False)"

text \<open>The snake: \<open>while x < m and y < n and a[x] == b[y]: x, y = x + 1, y + 1\<close>.\<close>

function snake :: "Line list \<Rightarrow> Line list \<Rightarrow> int \<Rightarrow> int \<Rightarrow> error + (int \<times> int)" where
  "snake a b x y =
     (if x < int (length a) \<and> y < int (length b) then
        (case py_get a x of
           Inl e \<Rightarrow> Inl e
         | Inr ax \<Rightarrow>
            (case py_get b y of
               Inl e \<Rightarrow> Inl e
             | Inr by \<Rightarrow> if line_eq ax by then snake a b (x + 1) (y + 1) else Inr (x, y)))
      else Inr (x, y))"
  by pat_completeness auto
termination
  by (relation "measure (\<lambda>(a, b, x, y). nat (int (length a) - x))") auto

text \<open>
  One pass of the inner loop \<open>for k in range(-d, d+1, 2)\<close>, from the current \<open>k\<close>
  on. It either returns from the function at some \<open>k\<close>, with the end point \<open>(x, y)\<close>
  found there, or runs through and leaves the updated array.
\<close>

datatype k_result = Returned int int int | Exhausted "int list"

function k_loop :: "Line list \<Rightarrow> Line list \<Rightarrow> int \<Rightarrow> int \<Rightarrow> int list \<Rightarrow> error + k_result" where
  "k_loop a b d k v =
     (if k < d + 1 then
        (case goes_down d k v of
           Inl e \<Rightarrow> Inl e
         | Inr down \<Rightarrow>
            (case (if down then py_get v (k + 1)
                   else (case py_get v (k - 1) of Inl e \<Rightarrow> Inl e | Inr l \<Rightarrow> Inr (l + 1))) of
               Inl e \<Rightarrow> Inl e
             | Inr x0 \<Rightarrow>
                (case snake a b x0 (x0 - k) of
                   Inl e \<Rightarrow> Inl e
                 | Inr (x, y) \<Rightarrow>
                    (case py_set v k x of
                       Inl e \<Rightarrow> Inl e
                     | Inr v' \<Rightarrow>
                        if x \<ge> int (length b) \<and> y \<ge> int (length a) then Inr (Returned k x y)
                        else k_loop a b d (k + 2) v'))))
      else Inr (Exhausted v))"
  by pat_completeness auto
termination
  by (relation "measure (\<lambda>(a, b, d, k, v). nat (d + 1 - k))") auto

text \<open>
  The outer loop \<open>for d in range(MAX+1)\<close> from the current \<open>d\<close> on; a copy of the
  array is appended to the trace after each completed pass. The result is the returned
  trace together with the place \<open>(d, k, x, y)\<close> where the function returned.
\<close>

function d_loop ::
  "Line list \<Rightarrow> Line list \<Rightarrow> int \<Rightarrow> int \<Rightarrow> int list \<Rightarrow> int list list
     \<Rightarrow> error + (int list list \<times> int \<times> int \<times> int \<times> int)" where
  "d_loop a b maxd d v trace =
     (if d < maxd + 1 then
        (case k_loop a b d (- d) v of
           Inl e \<Rightarrow> Inl e
         | Inr (Returned k x y) \<Rightarrow> Inr (trace, d, k, x, y)
         | Inr (Exhausted v') \<Rightarrow> d_loop a b maxd (d + 1) v' (trace @ [v']))
      else Inl SESTooLong)"
  by pat_completeness auto
termination
  by (relation "measure (\<lambda>(a, b, maxd, d, v, trace). nat (maxd + 1 - d))") auto

definition myers_search ::
  "Line list \<Rightarrow> Line list \<Rightarrow> error + (int list list \<times> int \<times> int \<times> int \<times> int)" where
  "myers_search a b =
     (let maxd = int (length a) + int (length b) in
      case py_set (replicate (nat (2 * maxd + 1)) (- 1)) 1 0 of
        Inl e \<Rightarrow> Inl e
      | Inr v \<Rightarrow> d_loop a b maxd 0 v [])"

definition myers_diff :: "Line list \<Rightarrow> Line list \<Rightarrow> error + int list list" where
  "myers_diff a b = (case myers_search a b of Inl e \<Rightarrow> Inl e | Inr r \<Rightarrow> Inr (fst r))"

section \<open>Backtracking (myers\_backtrack)\<close>

text \<open>
  A move is the tuple \<open>(prev_x, prev_y, x, y)\<close> the generator yields. The loop
  \<open>while x > prev_x and y > prev_y: yield (x - 1, y - 1, x, y); x, y = x - 1, y - 1\<close>
  gives the moves it yields, in the order of the yields, and the values of \<open>x\<close> and
  \<open>y\<close> it ends with.
\<close>

type_synonym move = "int \<times> int \<times> int \<times> int"

function back_snake :: "int \<Rightarrow> int \<Rightarrow> int \<Rightarrow> int \<Rightarrow> move list \<times> int \<times> int" where
  "back_snake prev_x prev_y x y =
     (if x > prev_x \<and> y > prev_y then
        (case back_snake prev_x prev_y (x - 1) (y - 1) of
           (ms, r) \<Rightarrow> ((x - 1, y - 1, x, y) # ms, r))
      else ([], x, y))"
  by pat_completeness auto
termination
  by (relation "measure (\<lambda>(prev_x, prev_y, x, y). nat (x - prev_x))") auto

text \<open>
  The loop over \<open>trace_enum\<close> (the enumerated trace, reversed), followed by the final
  loop \<open>while x > 0 and y > 0\<close>. The generator is consumed to its end by
  \<open>myers_git_diff\<close>, so an exception raised at any point of it is the outcome of the
  whole run; the model returns all the yielded moves, or the exception.
\<close>

fun backtrack_loop :: "(nat \<times> int list) list \<Rightarrow> int \<Rightarrow> int \<Rightarrow> error + move list" where
  "backtrack_loop [] x y = Inr (fst (back_snake 0 0 x y))"
| "backtrack_loop ((d, v) # rest) x y =
     (let k = x - y in
      case goes_down (int d) k v of
        Inl e \<Rightarrow> Inl e
      | Inr down \<Rightarrow>
         (let prev_k = (if down then k + 1 else k - 1) in
          case py_get v prev_k of
            Inl e \<Rightarrow> Inl e
          | Inr prev_x \<Rightarrow>
             (let prev_y = prev_x - prev_k in
              case back_snake prev_x prev_y x y of
                (ms, x', y') \<Rightarrow>
                 (case backtrack_loop rest prev_x prev_y of
                    Inl e \<Rightarrow> Inl e
                  | Inr later \<Rightarrow>
                     Inr (ms @ (if d > 0 then [(prev_x, prev_y, x', y')] else []) @ later)))))"

definition myers_backtrack :: "int list list \<Rightarrow> Line list \<Rightarrow> Line list \<Rightarrow> error + move list" where
  "myers_backtrack trace a b =
     backtrack_loop (rev (enumerate 0 trace)) (int (length a)) (int (length b))"

section \<open>Classifying the moves (Differ.myers\_git\_diff)\<close>

text \<open>\<open>a[prev_x] if prev_x < m else None\<close>\<close>

definition line_at :: "Line list \<Rightarrow> int \<Rightarrow> error + Line option" where
  "line_at a i =
     (if i < int (length a) then
        (case py_get a i of Inl e \<Rightarrow> Inl e | Inr l \<Rightarrow> Inr (Some l))
      else Inr None)"

text \<open>
  The body of \<open>for prev_x, prev_y, x, y in backtrack\<close>; \<open>diff\<close> is the deque, and
  \<open>appendleft\<close> puts the new edit at its front.
\<close>

fun classify_loop :: "Line list \<Rightarrow> Line list \<Rightarrow> move list \<Rightarrow> Edit list \<Rightarrow> error + Edit list" where
  "classify_loop a b [] diff = Inr diff"
| "classify_loop a b ((prev_x, prev_y, x, y) # ms) diff =
     (case line_at a prev_x of
        Inl e \<Rightarrow> Inl e
      | Inr a_line \<Rightarrow>
         (case line_at b prev_y of
            Inl e \<Rightarrow> Inl e
          | Inr b_line \<Rightarrow>
             if a_line \<noteq> None \<and> b_line \<noteq> None then
               (if x = prev_x then
                  classify_loop a b ms (\<lparr>edit_type = Insert, old = a_line, new = b_line\<rparr> # diff)
                else if y = prev_y then
                  classify_loop a b ms (\<lparr>edit_type = Delete, old = a_line, new = b_line\<rparr> # diff)
                else
                  classify_loop a b ms (\<lparr>edit_type = Equal, old = a_line, new = b_line\<rparr> # diff))
             else classify_loop a b ms diff))"

definition myers_git_diff :: "Line list \<Rightarrow> Line list \<Rightarrow> error + Edit list" where
  "myers_git_diff a b =
     (case myers_diff a b of
        Inl e \<Rightarrow> Inl e
      | Inr trace \<Rightarrow>
         (case myers_backtrack trace a b of
            Inl e \<Rightarrow> Inl e
          | Inr moves \<Rightarrow> classify_loop a b moves []))"

section \<open>Grouping and printing (Differ.diff)\<close>

definition BUFFER :: int where
  "BUFFER = 6"

text \<open>
  A document is a file path; \<open>lines()\<close> reads the file at that path. The model keeps
  the lines of the file (each without its newline) beside the path.
\<close>

record Document =
  filepath :: string
  file_lines :: "string list"

definition lines :: "Document \<Rightarrow> Line list" where
  "lines doc = map (\<lambda>(n, t). \<lparr>num = int n, text_of = t\<rparr>) (enumerate 0 (file_lines doc))"

text \<open>The positions of the edits that are not \<open>equal\<close>, in order.\<close>

definition diff_locs_of :: "Edit list \<Rightarrow> int list" where
  "diff_locs_of diff =
     map (\<lambda>(n, e). int n) (filter (\<lambda>(n, e). edit_type e \<noteq> Equal) (enumerate 0 diff))"

text \<open>
  The loop \<open>for num, diff_loc in enumerate(diff_locs)\<close>. The variables \<open>chunk_start\<close>
  and \<open>prev_loc\<close> are \<open>None\<close> together before the first location and are set together,
  so the model keeps them as one optional pair \<open>(chunk_start, prev_loc)\<close>; \<open>last_num\<close> is
  \<open>len(diff_locs) - 1\<close>.
\<close>

fun chunk_loop ::
  "int \<Rightarrow> (nat \<times> int) list \<Rightarrow> (int \<times> int) list \<Rightarrow> (int \<times> int) option \<Rightarrow> (int \<times> int) list" where
  "chunk_loop last_num [] chunk_locs st = chunk_locs"
| "chunk_loop last_num ((n, diff_loc) # rest) chunk_locs None =
     chunk_loop last_num rest chunk_locs (Some (diff_loc, diff_loc))"
| "chunk_loop last_num ((n, diff_loc) # rest) chunk_locs (Some (chunk_start, prev_loc)) =
     (if diff_loc - prev_loc \<le> BUFFER \<and> int n \<noteq> last_num then
        chunk_loop last_num rest chunk_locs (Some (chunk_start, diff_loc))
      else if int n \<noteq> last_num then
        chunk_loop last_num rest (chunk_locs @ [(chunk_start, prev_loc)]) (Some (diff_loc, diff_loc))
      else
        chunk_loop last_num rest (chunk_locs @ [(chunk_start, diff_loc)]) (Some (chunk_start, prev_loc)))"

definition chunk_locs_of :: "int list \<Rightarrow> (int \<times> int) list" where
  "chunk_locs_of diff_locs =
     (if length diff_locs > 1 then
        chunk_loop (int (length diff_locs) - 1) (enumerate 0 diff_locs) [] None
      else if length diff_locs = 1 then [(0, 0)]
      else [])"

text \<open>The slice \<open>diff[lo:hi]\<close> for bounds that are not negative.\<close>

definition py_slice :: "'a list \<Rightarrow> int \<Rightarrow> int \<Rightarrow> 'a list" where
  "py_slice xs lo hi = drop (nat lo) (take (nat hi) xs)"

definition window :: "Edit list \<Rightarrow> int \<times> int \<Rightarrow> Edit list" where
  "window diff c =
     py_slice diff (max 0 (fst c - BUFFER)) (min (int (length diff)) (snd c + 1 + BUFFER))"

text \<open>
  Python's \<open>str\<close> of an integer, as \<open>format\<close> prints it; \<open>digit_char\<close> is applied to
  numbers below ten only.
\<close>

definition digit_char :: "nat \<Rightarrow> char" where
  "digit_char n = ''0123456789'' ! n"

fun str_nat :: "nat \<Rightarrow> string" where
  "str_nat n = (if n < 10 then [digit_char n] else str_nat (n div 10) @ [digit_char (n mod 10)])"

definition str_int :: "int \<Rightarrow> string" where
  "str_int i = (if i < 0 then CHR ''-'' # str_nat (nat (- i)) else str_nat (nat i))"

text \<open>\<open>Edit.__str__\<close>; reading \<open>line.text\<close> of \<open>None\<close> raises \<open>AttributeError\<close>.\<close>

definition edit_str :: "Edit \<Rightarrow> error + string" where
  "edit_str e =
     (case (if edit_type e = Delete then old e else new e) of
        None \<Rightarrow> Inl AttributeError
      | Some line \<Rightarrow>
          Inr (TERM_COLORS (edit_type e) @ SYMBOLS (edit_type e) @ ''    '' @ text_of line
               @ ''    '' @ TERM_COLORS_end))"

fun edit_strs :: "Edit list \<Rightarrow> error + string list" where
  "edit_strs [] = Inr []"
| "edit_strs (e # es) =
     (case edit_str e of
        Inl err \<Rightarrow> Inl err
      | Inr s \<Rightarrow> (case edit_strs es of Inl err \<Rightarrow> Inl err | Inr ss \<Rightarrow> Inr (s # ss)))"

definition header_str :: "int \<Rightarrow> int \<Rightarrow> int \<Rightarrow> int \<Rightarrow> string" where
  "header_str old_start old_length new_start new_length =
     ''@@   -'' @ str_int old_start @ '','' @ str_int old_length @ '' +'' @ str_int new_start
       @ '','' @ str_int new_length @ ''   @@''"

text \<open>
  The body of \<open>for start, end in chunk_locs\<close>: the lines printed for one chunk (the
  header, one line for each edit of the window, an empty line), or the exception raised
  on the way.
\<close>

definition print_chunk :: "Edit list \<Rightarrow> int \<times> int \<Rightarrow> error + string list" where
  "print_chunk diff c =
     (let to_print = window diff c;
          insertions = int (length (filter (\<lambda>e. edit_type e = Insert) to_print));
          deletions = int (length (filter (\<lambda>e. edit_type e = Delete) to_print))
      in case to_print of
           [] \<Rightarrow> Inl IndexError
         | e0 # _ \<Rightarrow>
            (case old e0 of
               None \<Rightarrow> Inl AttributeError
             | Some old_line \<Rightarrow>
                (case new e0 of
                   None \<Rightarrow> Inl AttributeError
                 | Some new_line \<Rightarrow>
                    (case edit_strs to_print of
                       Inl err \<Rightarrow> Inl err
                     | Inr body \<Rightarrow>
                        Inr (header_str (num old_line) (int (length to_print) - insertions)
                               (num new_line) (int (length to_print) - deletions) # body @ [[]])))))"

fun print_chunks :: "Edit list \<Rightarrow> (int \<times> int) list \<Rightarrow> error + string list" where
  "print_chunks diff [] = Inr []"
| "print_chunks diff (c # cs) =
     (case print_chunk diff c of
        Inl err \<Rightarrow> Inl err
      | Inr ls \<Rightarrow> (case print_chunks diff cs of Inl err \<Rightarrow> Inl err | Inr rest \<Rightarrow> Inr (ls @ rest)))"

text \<open>
  \<open>Differ.diff\<close>: the lines written to standard output when the run completes, or the
  exception that ends it.
\<close>

definition diff :: "Document \<Rightarrow> Document \<Rightarrow> error + string list" where
  "diff doc1 doc2 =
     (case myers_git_diff (lines doc1) (lines doc2) of
        Inl err \<Rightarrow> Inl err
      | Inr es \<Rightarrow>
         (case print_chunks es (chunk_locs_of (diff_locs_of es)) of
            Inl err \<Rightarrow> Inl err
          | Inr hunks \<Rightarrow>
             Inr ([''Difference between:'', ''a/ '' @ filepath doc1, ''b/ '' @ filepath doc2] @ hunks)))"

section \<open>Notions used in the statements\<close>

text \<open>
  The chunks computed for an edit list, and the positions a chunk's printed window
  \<open>diff[max(0, start - BUFFER):min(len(diff), end + 1 + BUFFER)]\<close> covers.
\<close>

definition chunks_of :: "Edit list \<Rightarrow> (int \<times> int) list" where
  "chunks_of es = chunk_locs_of (diff_locs_of es)"

definition covers :: "Edit list \<Rightarrow> int \<times> int \<Rightarrow> int \<Rightarrow> bool" where
  "covers es c i \<longleftrightarrow>
     max 0 (fst c - BUFFER) \<le> i \<and> i < min (int (length es)) (snd c + 1 + BUFFER)"

text \<open>A printed line is a hunk header when it starts with the two at-signs.\<close>

definition is_header :: "string \<Rightarrow> bool" where
  "is_header l \<longleftrightarrow> take 2 l = ''@@''"

text \<open>
  An edit carries both lines when its \<open>old\<close> is a line of the first sequence and its
  \<open>new\<close> a line of the second.
\<close>

definition both_present :: "Line list \<Rightarrow> Line list \<Rightarrow> Edit \<Rightarrow> bool" where
  "both_present a b e \<longleftrightarrow> (\<exists>l \<in> set a. old e = Some l) \<and> (\<exists>l \<in> set b. new e = Some l)"

text \<open>
  The \<open>old\<close> references of the edits that are not inserts and the \<open>new\<close> references of the
  edits that are not deletes, in order.
\<close>

definition old_refs :: "Edit list \<Rightarrow> Line option list" where
  "old_refs es = map old (filter (\<lambda>e. edit_type e \<noteq> Insert) es)"

definition new_refs :: "Edit list \<Rightarrow> Line option list" where
  "new_refs es = map new (filter (\<lambda>e. edit_type e \<noteq> Delete) es)"

definition non_equal_count :: "Edit list \<Rightarrow> nat" where
  "non_equal_count es = length (filter (\<lambda>e. edit_type e \<noteq> Equal) es)"

text \<open>
  The reference edit distance, written from the specification's wording and not from
  the program: the least number of insertions and deletions of single lines (no
  substitution) that turn the first sequence into the second, by the usual recurrence of
  dynamic programming over the two sequences. Lines are compared by their text.
\<close>

fun indel_distance :: "Line list \<Rightarrow> Line list \<Rightarrow> nat" where
  "indel_distance [] ys = length ys"
| "indel_distance (x # xs) [] = Suc (length xs)"
| "indel_distance (x # xs) (y # ys) =
     (let del = Suc (indel_distance xs (y # ys));
          ins = Suc (indel_distance (x # xs) ys)
      in if line_eq x y then min (indel_distance xs ys) (min del ins) else min del ins)"

text \<open>The documents of the concrete runs below.\<close>

definition doc_empty :: Document where
  "doc_empty = \<lparr>filepath = ''old.txt'', file_lines = []\<rparr>"

definition doc_a_old :: Document where
  "doc_a_old = \<lparr>filepath = ''old.txt'', file_lines = [''a'']\<rparr>"

definition doc_empty_new :: Document where
  "doc_empty_new = \<lparr>filepath = ''new.txt'', file_lines = []\<rparr>"

definition doc_a :: Document where
  "doc_a = \<lparr>filepath = ''new.txt'', file_lines = [''a'']\<rparr>"

definition doc_xa :: Document where
  "doc_xa = \<lparr>filepath = ''new.txt'', file_lines = [''x'', ''a'']\<rparr>"

definition doc_abc :: Document where
  "doc_abc = \<lparr>filepath = ''old.txt'', file_lines = [''a'', ''b'', ''c'']\<rparr>"

definition doc_axc :: Document where
  "doc_axc = \<lparr>filepath = ''new.txt'', file_lines = [''a'', ''x'', ''c'']\<rparr>"

definition doc_tail_old :: Document where
  "doc_tail_old = \<lparr>filepath = ''old.txt'',
     file_lines = [''l1'', ''l2'', ''l3'', ''l4'', ''l5'', ''l6'', ''l7'', ''b'', ''c'']\<rparr>"

definition doc_tail_new :: Document where
  "doc_tail_new = \<lparr>filepath = ''new.txt'',
     file_lines = [''l1'', ''l2'', ''l3'', ''l4'', ''l5'', ''l6'', ''l7'', ''x'', ''c'']\<rparr>"

definition doc_far_old :: Document where
  "doc_far_old = \<lparr>filepath = ''old.txt'',
     file_lines = [''b'', ''l1'', ''l2'', ''l3'', ''l4'', ''l5'', ''l6'', ''l7'', ''l8'', ''l9'',
                   ''l10'', ''l11'', ''l12'', ''l13'', ''l14'', ''z'']\<rparr>"

definition doc_far_new :: Document where
  "doc_far_new = \<lparr>filepath = ''new.txt'',
     file_lines = [''x'', ''l1'', ''l2'', ''l3'', ''l4'', ''l5'', ''l6'', ''l7'', ''l8'', ''l9'',
                   ''l10'', ''l11'', ''l12'', ''l13'', ''l14'', ''y'']\<rparr>"

text \<open>The edit list computed for \<open>doc_abc\<close> and \<open>doc_axc\<close>.\<close>

definition edits_abc_axc :: "Edit list" where
  "edits_abc_axc =
     [\<lparr>edit_type = Equal, old = Some \<lparr>num = 0, text_of = ''a''\<rparr>,
         new = Some \<lparr>num = 0, text_of = ''a''\<rparr>\<rparr>,
      \<lparr>edit_type = Insert, old = Some \<lparr>num = 2, text_of = ''c''\<rparr>,
         new = Some \<lparr>num = 1, text_of = ''x''\<rparr>\<rparr>,
      \<lparr>edit_type = Equal, old = Some \<lparr>num = 2, text_of = ''c''\<rparr>,
         new = Some \<lparr>num = 2, text_of = ''c''\<rparr>\<rparr>]"

text \<open>The edit that pairs a line with itself.\<close>

definition equal_edit :: "Line \<Rightarrow> Edit" where
  "equal_edit l = \<lparr>edit_type = Equal, old = Some l, new = Some l\<rparr>"

text \<open>
  For the proof that the search returns: in round \<open>d\<close> every point \<open>(x, x - j)\<close> stored for
  diagonal \<open>j\<close> has \<open>x\<close> at least \<open>(d + j) / 2\<close> and \<open>y\<close> at least \<open>(d - j) / 2\<close>, and
  it did not pass the test that ends the search. \<open>frontier\<close> holds of the array at the
  start of round \<open>d\<close> (it speaks of the diagonals written in round \<open>d - 1\<close>, and of
  \<open>v[1]\<close> before round 0); \<open>row_done\<close> holds of the diagonals of round \<open>d\<close> below \<open>k\<close>.
\<close>

definition reach :: "int \<Rightarrow> int \<Rightarrow> int \<Rightarrow> int \<Rightarrow> int \<Rightarrow> bool" where
  "reach m n d j x \<longleftrightarrow> d + j \<le> 2 * x \<and> d - j \<le> 2 * (x - j) \<and> \<not> (n \<le> x \<and> m \<le> x - j)"

definition frontier :: "int \<Rightarrow> int \<Rightarrow> int \<Rightarrow> int list \<Rightarrow> bool" where
  "frontier m n d v \<longleftrightarrow>
     length v = nat (2 * (m + n) + 1)
     \<and> (\<forall>j. ((- d < j \<and> j < d) \<or> (d = 0 \<and> j = 1)) \<and> odd (j + d)
            \<longrightarrow> (\<exists>x. py_get v j = Inr x \<and> reach m n (d - 1) j x))"

definition row_done :: "int \<Rightarrow> int \<Rightarrow> int \<Rightarrow> int \<Rightarrow> int list \<Rightarrow> bool" where
  "row_done m n d k v \<longleftrightarrow>
     (\<forall>j. - d \<le> j \<and> j < k \<and> even (j + d) \<longrightarrow> (\<exists>x. py_get v j = Inr x \<and> reach m n d j x))"

section \<open>Which exceptions can be raised\<close>

declare snake.simps [simp del] k_loop.simps [simp del] d_loop.simps [simp del]
  back_snake.simps [simp del]

lemma py_pos_less: "py_pos xs i = Some j \<Longrightarrow> j < length xs"
  by (auto simp: py_pos_def split: if_splits)

lemma py_get_mem: "py_get xs i = Inr x \<Longrightarrow> x \<in> set xs"
  by (auto simp: py_get_def split: option.splits dest: py_pos_less)

lemma py_get_error: "py_get xs i = Inl e \<Longrightarrow> e = IndexError"
  by (auto simp: py_get_def split: option.splits)

lemma py_set_error: "py_set xs i y = Inl e \<Longrightarrow> e = IndexError"
  by (auto simp: py_set_def split: option.splits)

lemma goes_down_error: "goes_down d k v = Inl e \<Longrightarrow> e = IndexError"
  by (auto simp: goes_down_def split: if_splits sum.splits dest: py_get_error)

lemma line_at_error: "line_at a i = Inl e \<Longrightarrow> e = IndexError"
  by (auto simp: line_at_def split: if_splits sum.splits dest: py_get_error)

lemma line_at_mem: "line_at a i = Inr (Some l) \<Longrightarrow> l \<in> set a"
  by (auto simp: line_at_def split: if_splits sum.splits dest: py_get_mem)

lemma snake_error: "snake a b x y = Inl e \<Longrightarrow> e = IndexError"
proof (induction a b x y rule: snake.induct)
  case (1 a b x y)
  from "1.prems" "1.IH" show ?case
    by (subst (asm) snake.simps) (auto split: if_splits sum.splits dest: py_get_error)
qed

lemma k_loop_error: "k_loop a b d k v = Inl e \<Longrightarrow> e = IndexError"
proof (induction a b d k v rule: k_loop.induct)
  case (1 a b d k v)
  from "1.prems" "1.IH" show ?case
    by (subst (asm) k_loop.simps)
       (auto split: if_splits sum.splits prod.splits
             dest: py_get_error py_set_error goes_down_error snake_error)
qed

lemma d_loop_error: "d_loop a b maxd d v trace = Inl e \<Longrightarrow> e \<noteq> AttributeError"
proof (induction a b maxd d v trace rule: d_loop.induct)
  case (1 a b maxd d v trace)
  from "1.prems" "1.IH" show ?case
    by (subst (asm) d_loop.simps)
       (auto split: if_splits sum.splits k_result.splits dest: k_loop_error)
qed

lemma myers_diff_error: "myers_diff a b = Inl e \<Longrightarrow> e \<noteq> AttributeError"
  by (auto simp: myers_diff_def myers_search_def Let_def split: sum.splits
           dest: py_set_error d_loop_error)

lemma backtrack_loop_error: "backtrack_loop tr x y = Inl e \<Longrightarrow> e = IndexError"
proof (induction tr x y rule: backtrack_loop.induct)
  case (1 x y)
  then show ?case by simp
next
  case (2 d v rest x y)
  from "2.prems" "2.IH" show ?case
    by (auto simp: Let_def split: sum.splits prod.splits if_splits
             dest: goes_down_error py_get_error)
qed

lemma classify_loop_error: "classify_loop a b ms acc = Inl e \<Longrightarrow> e = IndexError"
proof (induction a b ms acc rule: classify_loop.induct)
  case (1 a b acc)
  then show ?case by simp
next
  case (2 a b prev_x prev_y x y ms acc)
  from "2.prems" "2.IH" show ?case
    by (auto split: sum.splits if_splits dest: line_at_error)
qed

lemma myers_git_diff_error: "myers_git_diff a b = Inl e \<Longrightarrow> e \<noteq> AttributeError"
  by (auto simp: myers_git_diff_def myers_backtrack_def split: sum.splits
           dest: myers_diff_error backtrack_loop_error classify_loop_error)

section \<open>Every edit of the result carries both lines\<close>

lemma classify_loop_present:
  "classify_loop a b ms acc = Inr es \<Longrightarrow> list_all (both_present a b) acc
     \<Longrightarrow> list_all (both_present a b) es"
proof (induction a b ms acc rule: classify_loop.induct)
  case (1 a b acc)
  then show ?case by simp
next
  case (2 a b prev_x prev_y x y ms acc)
  from "2.prems"(1) obtain a_line b_line where
    la: "line_at a prev_x = Inr a_line" and lb: "line_at b prev_y = Inr b_line"
    by (auto split: sum.splits)
  show ?case
  proof (cases "a_line \<noteq> None \<and> b_line \<noteq> None")
    case False
    with 2 la lb show ?thesis by (auto split: if_splits)
  next
    case True
    then obtain l r where lr: "a_line = Some l" "b_line = Some r" by auto
    with la lb have mem: "l \<in> set a" "r \<in> set b" by (auto dest: line_at_mem)
    have "\<And>t. both_present a b \<lparr>edit_type = t, old = a_line, new = b_line\<rparr>"
      using mem lr by (simp add: both_present_def)
    then have ok:
      "\<And>t. list_all (both_present a b) (\<lparr>edit_type = t, old = a_line, new = b_line\<rparr> # acc)"
      using "2.prems"(2) by simp
    show ?thesis
      using "2.IH"(1,2,3)[OF la lb True] "2.prems"(1) la lb True ok
      by (auto split: if_splits)
  qed
qed

lemma myers_git_diff_present:
  "myers_git_diff a b = Inr es \<Longrightarrow> list_all (both_present a b) es"
  unfolding myers_git_diff_def
  by (auto split: sum.splits dest: classify_loop_present)

lemma edit_str_present: "both_present a b e \<Longrightarrow> \<exists>s. edit_str e = Inr s"
  by (auto simp: both_present_def edit_str_def)

lemma edit_strs_present: "list_all (both_present a b) es \<Longrightarrow> \<exists>ss. edit_strs es = Inr ss"
proof (induction es)
  case Nil
  then show ?case by simp
next
  case (Cons e es)
  then obtain s ss where "edit_str e = Inr s" "edit_strs es = Inr ss"
    using edit_str_present[of a b e] by auto
  then show ?case by simp
qed

lemma window_subset: "set (window es c) \<subseteq> set es"
proof -
  have "set (window es c) \<subseteq> set (take (nat (min (int (length es)) (snd c + 1 + BUFFER))) es)"
    unfolding window_def py_slice_def by (rule set_drop_subset)
  also have "\<dots> \<subseteq> set es" by (rule set_take_subset)
  finally show ?thesis .
qed

lemma print_chunk_no_attribute_error:
  assumes "list_all (both_present a b) es"
  shows "print_chunk es c \<noteq> Inl AttributeError"
proof (cases "window es c")
  case Nil
  then show ?thesis by (simp add: print_chunk_def)
next
  case (Cons e0 rest)
  have all: "list_all (both_present a b) (window es c)"
    using assms window_subset[of es c] by (auto simp: list_all_iff)
  then obtain ss where ss: "edit_strs (window es c) = Inr ss"
    using edit_strs_present by blast
  from all Cons have "both_present a b e0" by simp
  then obtain l r where "old e0 = Some l" "new e0 = Some r"
    by (auto simp: both_present_def)
  with Cons ss show ?thesis
    by (simp add: print_chunk_def Let_def)
qed

lemma print_chunks_no_attribute_error:
  "list_all (both_present a b) es \<Longrightarrow> print_chunks es cs \<noteq> Inl AttributeError"
proof (induction cs)
  case Nil
  then show ?case by simp
next
  case (Cons c cs)
  then show ?case
    using print_chunk_no_attribute_error[of a b es c]
    by (auto split: sum.splits)
qed

lemma diff_no_attribute_error: "diff doc1 doc2 \<noteq> Inl AttributeError"
proof (cases "myers_git_diff (lines doc1) (lines doc2)")
  case (Inl e)
  then show ?thesis
    using myers_git_diff_error[of "lines doc1" "lines doc2" e] by (simp add: diff_def)
next
  case (Inr es)
  then have "list_all (both_present (lines doc1) (lines doc2)) es"
    by (rule myers_git_diff_present)
  then have "print_chunks es (chunk_locs_of (diff_locs_of es)) \<noteq> Inl AttributeError"
    by (rule print_chunks_no_attribute_error)
  with Inr show ?thesis
    by (auto simp: diff_def split: sum.splits)
qed

text \<open>
  C10. Every edit in the list returned by \<open>myers_git_diff\<close> has an \<open>old\<close> line that is a
  line of the first sequence and a \<open>new\<close> line that is a line of the second, none of
  them absent. So turning an edit of the list into its printed line succeeds, printing a
  chunk of the list never fails on an absent line when it reads \<open>to_print[0].old.num\<close>
  and \<open>to_print[0].new.num\<close>, and a whole run of \<open>diff\<close> never raises the exception of
  reading a field of \<open>None\<close>.
\<close>

theorem edits_carry_both_lines:
  "(myers_git_diff a b = Inr es \<longrightarrow>
      list_all (both_present a b) es
      \<and> (\<forall>e \<in> set es. \<exists>s. edit_str e = Inr s)
      \<and> print_chunk es c \<noteq> Inl AttributeError)
   \<and> diff doc1 doc2 \<noteq> Inl AttributeError"
proof -
  have "list_all (both_present a b) es \<and> (\<forall>e \<in> set es. \<exists>s. edit_str e = Inr s)
      \<and> print_chunk es c \<noteq> Inl AttributeError" if r: "myers_git_diff a b = Inr es"
  proof -
    have all: "list_all (both_present a b) es"
      using r by (rule myers_git_diff_present)
    then have "\<forall>e \<in> set es. \<exists>s. edit_str e = Inr s"
      using edit_str_present[of a b] by (auto simp: list_all_iff)
    with all show ?thesis
      using print_chunk_no_attribute_error[of a b es c] by simp
  qed
  then show ?thesis
    using diff_no_attribute_error by blast
qed

theorem edits_carry_both_lines_witness:
  "myers_git_diff (lines doc_abc) (lines doc_axc) = Inr edits_abc_axc
   \<and> list_all (both_present (lines doc_abc) (lines doc_axc)) edits_abc_axc
   \<and> list_all (\<lambda>e. \<exists>s. edit_str e = Inr s) edits_abc_axc
   \<and> print_chunk edits_abc_axc (0, 0) \<noteq> Inl AttributeError
   \<and> diff doc_abc doc_axc \<noteq> Inl AttributeError"
proof -
  have r: "myers_git_diff (lines doc_abc) (lines doc_axc) = Inr edits_abc_axc"
    by code_simp
  from edits_carry_both_lines
         [of "lines doc_abc" "lines doc_axc" edits_abc_axc "(0, 0)" doc_abc doc_axc] r
  show ?thesis unfolding list_all_iff by blast
qed

section \<open>A sequence against itself\<close>

lemma py_get_nat: "i < length xs \<Longrightarrow> py_get xs (int i) = Inr (xs ! i)"
  by (simp add: py_get_def py_pos_def)

lemma snake_self:
  "0 \<le> x \<Longrightarrow> x \<le> int (length a) \<Longrightarrow> snake a a x x = Inr (int (length a), int (length a))"
proof (induction "nat (int (length a) - x)" arbitrary: x)
  case 0
  then have "x = int (length a)" by simp
  then show ?case by (subst snake.simps) simp
next
  case (Suc n)
  then have lt: "x < int (length a)" by linarith
  with Suc.prems have g: "py_get a x = Inr (a ! nat x)"
    using py_get_nat[of "nat x" a] by simp
  have "snake a a (x + 1) (x + 1) = Inr (int (length a), int (length a))"
    using Suc lt by (intro Suc.hyps(1)) linarith+
  with lt g show ?case
    by (subst snake.simps) (simp add: line_eq_def)
qed

lemma back_snake_step:
  "0 \<le> x \<Longrightarrow> back_snake 0 0 (1 + x) (1 + x) =
     ((x, x, 1 + x, 1 + x) # fst (back_snake 0 0 x x), snd (back_snake 0 0 x x))"
  by (subst back_snake.simps) (simp split: prod.splits)

lemma classify_back_snake:
  "i \<le> length a \<Longrightarrow>
     classify_loop a a (fst (back_snake 0 0 (int i) (int i))) acc =
       Inr (map equal_edit (take i a) @ acc)"
proof (induction i arbitrary: acc)
  case 0
  have "back_snake 0 0 0 0 = ([], 0, 0)" by (subst back_snake.simps) simp
  then show ?case by simp
next
  case (Suc i)
  then have lt: "i < length a" by simp
  then have at: "line_at a (int i) = Inr (Some (a ! i))"
    by (simp add: line_at_def py_get_nat)
  have "classify_loop a a (fst (back_snake 0 0 (int (Suc i)) (int (Suc i)))) acc =
        classify_loop a a (fst (back_snake 0 0 (int i) (int i))) (equal_edit (a ! i) # acc)"
    by (simp add: back_snake_step at equal_edit_def)
  also have "\<dots> = Inr (map equal_edit (take i a) @ equal_edit (a ! i) # acc)"
    using Suc.IH[of "equal_edit (a ! i) # acc"] lt by simp
  also have "\<dots> = Inr (map equal_edit (take (Suc i) a) @ acc)"
    using lt by (simp add: take_Suc_conv_app_nth)
  finally show ?case .
qed

lemma myers_search_self:
  assumes "a \<noteq> []"
  shows "myers_search a a = Inr ([], 0, 0, int (length a), int (length a))"
proof -
  let ?m = "int (length a)"
  let ?v = "(replicate (nat (2 * (?m + ?m) + 1)) (- 1 :: int))[1 := 0]"
  from assms have pos: "0 < length a" by simp
  have set1: "py_set (replicate (nat (2 * (?m + ?m) + 1)) (- 1 :: int)) 1 0 = Inr ?v"
    using pos by (simp add: py_set_def py_pos_def)
  have len: "length ?v = nat (2 * (?m + ?m) + 1)" by simp
  have get1: "py_get ?v 1 = Inr 0"
    using pos by (simp add: py_get_def py_pos_def)
  have set0: "\<exists>v'. py_set ?v 0 ?m = Inr v'"
    by (simp add: py_set_def py_pos_def)
  have k: "k_loop a a 0 0 ?v = Inr (Returned 0 ?m ?m)"
    using get1 set0 snake_self[of 0 a]
    by (subst k_loop.simps) (auto simp: goes_down_def)
  have "d_loop a a (?m + ?m) 0 ?v [] = Inr ([], 0, 0, ?m, ?m)"
    using k by (subst d_loop.simps) simp
  with set1 show ?thesis
    by (simp add: myers_search_def Let_def)
qed

lemma myers_git_diff_self:
  assumes "a \<noteq> []"
  shows "myers_git_diff a a = Inr (map equal_edit a)"
  using myers_search_self[OF assms] classify_back_snake[of "length a" a "[]"]
  by (simp add: myers_git_diff_def myers_diff_def myers_backtrack_def)

lemma diff_locs_of_equal: "diff_locs_of (map equal_edit a) = []"
proof -
  have "\<forall>p \<in> set (enumerate 0 (map equal_edit a)). edit_type (snd p) = Equal"
    by (auto simp: enumerate_eq_zip equal_edit_def dest!: set_zip_rightD)
  then have "filter (\<lambda>(n, e). edit_type e \<noteq> Equal) (enumerate 0 (map equal_edit a)) = []"
    by (auto simp: filter_empty_conv)
  then show ?thesis by (simp add: diff_locs_of_def)
qed

lemma diff_self:
  assumes "file_lines doc1 \<noteq> []" and "file_lines doc2 = file_lines doc1"
  shows "diff doc1 doc2 = Inr [''Difference between:'', ''a/ '' @ filepath doc1, ''b/ '' @ filepath doc2]"
proof -
  have same: "lines doc2 = lines doc1" using assms(2) by (simp add: lines_def)
  have ne: "lines doc1 \<noteq> []" using assms(1) by (simp add: lines_def enumerate_eq_zip)
  show ?thesis
    using myers_git_diff_self[OF ne] same
    by (simp add: diff_def diff_locs_of_equal chunk_locs_of_def)
qed

section \<open>The search returns unless both sequences are empty\<close>

lemma py_get_in_range:
  "length v = nat (2 * mx + 1) \<Longrightarrow> - mx \<le> j \<Longrightarrow> j \<le> mx \<Longrightarrow> \<exists>x. py_get v j = Inr x"
  by (auto simp: py_get_def py_pos_def)

lemma py_set_get:
  assumes "length v = nat (2 * mx + 1)" "- mx \<le> k" "k \<le> mx"
  shows "\<exists>v'. py_set v k x = Inr v' \<and> length v' = length v \<and> py_get v' k = Inr x
           \<and> (\<forall>j. - mx \<le> j \<and> j \<le> mx \<and> j \<noteq> k \<longrightarrow> py_get v' j = py_get v j)"
proof -
  have "py_pos v k = Some (if 0 \<le> k then nat k else nat (2 * mx + 1 + k))"
    using assms by (auto simp: py_pos_def)
  moreover have "(if 0 \<le> k then nat k else nat (2 * mx + 1 + k)) < length v"
    using assms by auto
  ultimately obtain p where p: "py_pos v k = Some p" "p < length v"
    by blast
  have same: "py_pos (v[p := x]) j = py_pos v j" for j
    by (simp add: py_pos_def)
  have other: "py_pos v j \<noteq> Some p" if "- mx \<le> j" "j \<le> mx" "j \<noteq> k" for j
    using that assms p(1) by (auto simp: py_pos_def split: if_splits)
  have "py_get (v[p := x]) j = py_get v j" if "- mx \<le> j" "j \<le> mx" "j \<noteq> k" for j
    using other[OF that] by (auto simp: py_get_def same split: option.splits)
  moreover have "py_get (v[p := x]) k = Inr x"
    using p by (simp add: py_get_def same)
  ultimately show ?thesis
    using p by (auto simp: py_set_def)
qed

lemma snake_runs:
  "0 \<le> x \<Longrightarrow> 0 \<le> y \<Longrightarrow> \<exists>x'. snake a b x y = Inr (x', x' - x + y) \<and> x \<le> x'"
proof (induction "nat (int (length a) - x)" arbitrary: x y rule: less_induct)
  case less
  show ?case
  proof (cases "x < int (length a) \<and> y < int (length b)")
    case False
    then have "snake a b x y = Inr (x, y)" by (subst snake.simps) auto
    then show ?thesis by simp
  next
    case True
    with less.prems obtain ax bx where g: "py_get a x = Inr ax" "py_get b y = Inr bx"
      by (auto simp: py_get_def py_pos_def)
    show ?thesis
    proof (cases "line_eq ax bx")
      case False
      with True g have "snake a b x y = Inr (x, y)" by (subst snake.simps) auto
      then show ?thesis by simp
    next
      case eq: True
      have "nat (int (length a) - (x + 1)) < nat (int (length a) - x)"
        using True by linarith
      from less.hyps[OF this, of "y + 1"] less.prems obtain x' where
        r: "snake a b (x + 1) (y + 1) = Inr (x', x' - (x + 1) + (y + 1))" "x + 1 \<le> x'"
        by auto
      from True g eq r(1) have "snake a b x y = Inr (x', x' - x + y)"
        by (subst snake.simps) auto
      with r(2) show ?thesis by auto
    qed
  qed
qed


lemma frontier_get:
  "frontier m n d v \<Longrightarrow> ((- d < j \<and> j < d) \<or> (d = 0 \<and> j = 1)) \<Longrightarrow> odd (j + d)
     \<Longrightarrow> \<exists>x. py_get v j = Inr x \<and> reach m n (d - 1) j x"
  unfolding frontier_def by blast

lemma reach_down:
  "reach m n (d - 1) (k + 1) x \<Longrightarrow> d + k \<le> 2 * x \<and> d - k \<le> 2 * (x - k)"
  by (auto simp: reach_def)

lemma reach_right:
  "reach m n (d - 1) (k - 1) x \<Longrightarrow> d + k \<le> 2 * (x + 1) \<and> d - k \<le> 2 * (x + 1 - k)"
  by (auto simp: reach_def)

text \<open>The first point of diagonal k in round d, before the snake.\<close>

lemma start_point:
  assumes fr: "frontier m n d v" and d0: "0 \<le> d" and kd: "- d \<le> k" "k \<le> d" "even (k + d)"
  shows "\<exists>down x0. goes_down d k v = Inr down
           \<and> (if down then py_get v (k + 1)
               else (case py_get v (k - 1) of Inl e \<Rightarrow> Inl e | Inr l \<Rightarrow> Inr (l + 1))) = Inr x0
           \<and> d + k \<le> 2 * x0 \<and> d - k \<le> 2 * (x0 - k)"
proof -
  have up: "\<exists>x. py_get v (k + 1) = Inr x \<and> reach m n (d - 1) (k + 1) x" if "k \<noteq> d"
  proof -
    have "k + 2 \<le> d" using that kd by presburger
    then have "(- d < k + 1 \<and> k + 1 < d) \<or> (d = 0 \<and> k + 1 = 1)" using kd by auto
    moreover have "odd (k + 1 + d)" using kd by simp
    ultimately show ?thesis using frontier_get[OF fr] by blast
  qed
  have dn: "\<exists>x. py_get v (k - 1) = Inr x \<and> reach m n (d - 1) (k - 1) x" if "k \<noteq> - d"
  proof -
    have "- d + 2 \<le> k" using that kd by presburger
    then have "(- d < k - 1 \<and> k - 1 < d) \<or> (d = 0 \<and> k - 1 = 1)" using kd by auto
    moreover have "odd (k - 1 + d)" using kd by simp
    ultimately show ?thesis using frontier_get[OF fr] by blast
  qed
  show ?thesis
  proof (cases "k = - d")
    case True
    have "\<exists>x. py_get v (k + 1) = Inr x \<and> reach m n (d - 1) (k + 1) x"
    proof (cases "d = 0")
      case True
      with \<open>k = - d\<close> show ?thesis using frontier_get[OF fr, of 1] by simp
    next
      case False
      with True d0 have "k \<noteq> d" by simp
      then show ?thesis by (rule up)
    qed
    then obtain x where "py_get v (k + 1) = Inr x" "reach m n (d - 1) (k + 1) x" by blast
    with True show ?thesis
      using reach_down[of m n d k x] by (auto simp: goes_down_def)
  next
    case nd: False
    from dn[OF nd] obtain l where l: "py_get v (k - 1) = Inr l" "reach m n (d - 1) (k - 1) l"
      by blast
    show ?thesis
    proof (cases "k = d")
      case True
      with nd l show ?thesis
        using reach_right[of m n d k l] by (auto simp: goes_down_def)
    next
      case False
      from up[OF False] obtain r where r: "py_get v (k + 1) = Inr r" "reach m n (d - 1) (k + 1) r"
        by blast
      show ?thesis
      proof (cases "l < r")
        case True
        with nd False l r show ?thesis
          using reach_down[of m n d k r] by (auto simp: goes_down_def)
      next
        case False
        with nd \<open>k \<noteq> d\<close> l r show ?thesis
          using reach_right[of m n d k l] by (auto simp: goes_down_def)
      qed
    qed
  qed
qed


lemma k_loop_progress:
  assumes mn: "m = int (length a)" "n = int (length b)"
    and d: "0 \<le> d" "d \<le> m + n"
  shows "- d \<le> k \<Longrightarrow> k \<le> d + 2 \<Longrightarrow> even (k + d) \<Longrightarrow> frontier m n d v \<Longrightarrow> row_done m n d k v \<Longrightarrow>
     (\<exists>k' x y. k_loop a b d k v = Inr (Returned k' x y) \<and> n \<le> x \<and> m \<le> y)
     \<or> (\<exists>v'. k_loop a b d k v = Inr (Exhausted v') \<and> frontier m n (d + 1) v')"
proof (induction "nat (d + 2 - k)" arbitrary: k v rule: less_induct)
  case less
  note fr = \<open>frontier m n d v\<close> and rd = \<open>row_done m n d k v\<close>
  have len: "length v = nat (2 * (m + n) + 1)" using fr by (simp add: frontier_def)
  show ?case
  proof (cases "k < d + 1")
    case False
    with less.prems(2,3) have k: "k = d + 2" by presburger
    have "k_loop a b d k v = Inr (Exhausted v)"
      using False by (subst k_loop.simps) simp
    moreover have "frontier m n (d + 1) v"
      unfolding frontier_def
    proof (intro conjI allI impI)
      show "length v = nat (2 * (m + n) + 1)" by (rule len)
    next
      fix j
      assume j: "((- (d + 1) < j \<and> j < d + 1) \<or> (d + 1 = 0 \<and> j = 1)) \<and> odd (j + (d + 1))"
      with d have "- d \<le> j \<and> j < k \<and> even (j + d)" using k by auto
      with rd show "\<exists>x. py_get v j = Inr x \<and> reach m n (d + 1 - 1) j x"
        by (simp add: row_done_def)
    qed
    ultimately show ?thesis by blast
  next
    case True
    then have kd: "k \<le> d" by simp
    from start_point[OF fr d(1) less.prems(1) kd less.prems(3)] obtain down x0 where
      gd: "goes_down d k v = Inr down"
      and st: "(if down then py_get v (k + 1)
               else (case py_get v (k - 1) of Inl e \<Rightarrow> Inl e | Inr l \<Rightarrow> Inr (l + 1))) = Inr x0"
      and b0: "d + k \<le> 2 * x0" "d - k \<le> 2 * (x0 - k)"
      by blast
    have nonneg: "0 \<le> x0" "0 \<le> x0 - k" using b0 less.prems(1) kd by linarith+
    from snake_runs[OF nonneg, of a b] obtain x where
      sn: "snake a b x0 (x0 - k) = Inr (x, x - k)" and xge: "x0 \<le> x"
      by auto
    have krange: "- (m + n) \<le> k" "k \<le> m + n" using less.prems(1) kd d by linarith+
    from py_set_get[OF len krange, of x] obtain v' where
      ps: "py_set v k x = Inr v'" and len': "length v' = length v"
      and gk: "py_get v' k = Inr x"
      and oth: "\<And>j. - (m + n) \<le> j \<Longrightarrow> j \<le> m + n \<Longrightarrow> j \<noteq> k \<Longrightarrow> py_get v' j = py_get v j"
      by blast
    show ?thesis
    proof (cases "n \<le> x \<and> m \<le> x - k")
      case sink: True
      have "k_loop a b d k v = Inr (Returned k x (x - k))"
        using True sink mn by (subst k_loop.simps) (simp add: gd st sn ps)
      with sink show ?thesis by blast
    next
      case nosink: False
      have step: "k_loop a b d k v = k_loop a b d (k + 2) v'"
        using True nosink mn by (subst k_loop.simps) (auto simp: gd st sn ps)
      have one: "1 \<le> m + n \<or> d = 0" using d by linarith
      have fr': "frontier m n d v'"
        unfolding frontier_def
      proof (intro conjI allI impI)
        show "length v' = nat (2 * (m + n) + 1)" using len len' by simp
      next
        fix j
        assume j: "((- d < j \<and> j < d) \<or> (d = 0 \<and> j = 1)) \<and> odd (j + d)"
        then have ne: "j \<noteq> k" using less.prems(3) by auto
        from j obtain xj where xj: "py_get v j = Inr xj" "reach m n (d - 1) j xj"
          using frontier_get[OF fr, of j] by blast
        have inr: "- (m + n) \<le> j \<and> j \<le> m + n"
        proof (cases "d = 0")
          case False
          with j d show ?thesis by auto
        next
          case True
          with j have j1: "j = 1" by auto
          have "py_pos v 1 \<noteq> None" using xj(1) j1 by (auto simp: py_get_def split: option.splits)
          then have "1 < int (length v)" by (auto simp: py_pos_def split: if_splits)
          with len have "1 \<le> m + n" by (cases "0 \<le> 2 * (m + n) + 1") auto
          with j1 show ?thesis by simp
        qed
        then have "py_get v' j = py_get v j" using oth ne by blast
        with xj show "\<exists>x. py_get v' j = Inr x \<and> reach m n (d - 1) j x" by simp
      qed
      have rd': "row_done m n d (k + 2) v'"
        unfolding row_done_def
      proof (intro allI impI)
        fix j
        assume j: "- d \<le> j \<and> j < k + 2 \<and> even (j + d)"
        show "\<exists>x. py_get v' j = Inr x \<and> reach m n d j x"
        proof (cases "j = k")
          case True
          have "reach m n d k x"
            using b0 xge nosink by (auto simp: reach_def)
          with gk True show ?thesis by simp
        next
          case False
          with j less.prems(3) have lt: "j < k" by presburger
          with j rd obtain xj where xj: "py_get v j = Inr xj" "reach m n d j xj"
            by (auto simp: row_done_def)
          have "- (m + n) \<le> j \<and> j \<le> m + n" using j lt kd d by linarith
          then have "py_get v' j = py_get v j" using oth False by blast
          with xj show ?thesis by simp
        qed
      qed
      have "nat (d + 2 - (k + 2)) < nat (d + 2 - k)" using kd by linarith
      from less.hyps[OF this _ _ _ fr' rd'] less.prems(1,3) kd
      have "(\<exists>k' x y. k_loop a b d (k + 2) v' = Inr (Returned k' x y) \<and> n \<le> x \<and> m \<le> y)
        \<or> (\<exists>v''. k_loop a b d (k + 2) v' = Inr (Exhausted v'') \<and> frontier m n (d + 1) v'')"
        by simp
      with step show ?thesis by simp
    qed
  qed
qed


lemma frontier_past_bound:
  assumes "0 \<le> m" "0 \<le> n" "frontier m n (m + n + 1) v"
  shows False
proof -
  have "(- (m + n + 1) < n - m \<and> n - m < m + n + 1) \<or> (m + n + 1 = 0 \<and> n - m = 1)"
    using assms(1,2) by linarith
  moreover have "odd (n - m + (m + n + 1))" by simp
  ultimately obtain x where "reach m n (m + n + 1 - 1) (n - m) x"
    using frontier_get[OF assms(3), of "n - m"] by blast
  then show False by (auto simp: reach_def)
qed

lemma d_loop_returns:
  assumes mn: "m = int (length a)" "n = int (length b)"
  shows "0 \<le> d \<Longrightarrow> d \<le> m + n + 1 \<Longrightarrow> frontier m n d v \<Longrightarrow>
     \<exists>tr d' k x y. d_loop a b (m + n) d v trace = Inr (tr, d', k, x, y)
        \<and> d \<le> d' \<and> d' \<le> m + n \<and> length tr = length trace + nat (d' - d)
        \<and> n \<le> x \<and> m \<le> y"
proof (induction "nat (m + n + 1 - d)" arbitrary: d v trace rule: less_induct)
  case less
  have pos: "0 \<le> m" "0 \<le> n" using mn by simp_all
  have dle: "d \<le> m + n"
  proof (rule ccontr)
    assume "\<not> d \<le> m + n"
    with less.prems(2) have "d = m + n + 1" by simp
    with less.prems(3) show False using frontier_past_bound[OF pos] by simp
  qed
  have "row_done m n d (- d) v" by (auto simp: row_done_def)
  from k_loop_progress[OF mn less.prems(1) dle _ _ _ less.prems(3) this] less.prems(1)
  consider (ret) k x y where "k_loop a b d (- d) v = Inr (Returned k x y)" "n \<le> x" "m \<le> y"
    | (exh) v' where "k_loop a b d (- d) v = Inr (Exhausted v')" "frontier m n (d + 1) v'"
    by auto
  then show ?case
  proof cases
    case ret
    then have "d_loop a b (m + n) d v trace = Inr (trace, d, k, x, y)"
      using dle by (subst d_loop.simps) simp
    with ret dle show ?thesis by simp
  next
    case exh
    have step: "d_loop a b (m + n) d v trace = d_loop a b (m + n) (d + 1) v' (trace @ [v'])"
      using exh(1) dle by (subst d_loop.simps) simp
    have "nat (m + n + 1 - (d + 1)) < nat (m + n + 1 - d)" using dle by linarith
    from less.hyps[OF this _ _ exh(2), of "trace @ [v']"] less.prems(1) dle
    obtain tr d' k x y where r:
      "d_loop a b (m + n) (d + 1) v' (trace @ [v']) = Inr (tr, d', k, x, y)"
      "d + 1 \<le> d'" "d' \<le> m + n" "length tr = length (trace @ [v']) + nat (d' - (d + 1))"
      "n \<le> x" "m \<le> y"
      by auto
    have "length tr = length trace + nat (d' - d)" using r(2,4) by simp
    with step r show ?thesis by auto
  qed
qed

lemma myers_search_returns:
  assumes "a \<noteq> [] \<or> b \<noteq> []"
  shows "\<exists>tr d k x y. myers_search a b = Inr (tr, d, k, x, y)
           \<and> 0 \<le> d \<and> d \<le> int (length a) + int (length b) \<and> length tr = nat d
           \<and> int (length b) \<le> x \<and> int (length a) \<le> y"
proof -
  let ?m = "int (length a)" and ?n = "int (length b)"
  let ?v = "(replicate (nat (2 * (?m + ?n) + 1)) (- 1 :: int))[1 := 0]"
  from assms have one: "1 \<le> ?m + ?n" by (cases a; cases b) auto
  have set1: "py_set (replicate (nat (2 * (?m + ?n) + 1)) (- 1 :: int)) 1 0 = Inr ?v"
    using one by (simp add: py_set_def py_pos_def)
  have get1: "py_get ?v 1 = Inr 0"
    using one by (simp add: py_get_def py_pos_def)
  have "frontier ?m ?n 0 ?v"
    unfolding frontier_def using get1 by (auto simp: reach_def)
  from d_loop_returns[OF refl refl _ _ this, of "[]"] one
  obtain tr d' k x y where
    "d_loop a b (?m + ?n) 0 ?v [] = Inr (tr, d', k, x, y)" "0 \<le> d'" "d' \<le> ?m + ?n"
    "length tr = nat d'" "?n \<le> x" "?m \<le> y"
    by auto
  with set1 show ?thesis
    by (simp add: myers_search_def Let_def)
qed

lemma myers_diff_returns:
  assumes "a \<noteq> [] \<or> b \<noteq> []"
  shows "\<exists>tr. myers_diff a b = Inr tr \<and> length tr \<le> length a + length b"
proof -
  from myers_search_returns[OF assms] obtain tr d k x y where
    r: "myers_search a b = Inr (tr, d, k, x, y)" "0 \<le> d" "d \<le> int (length a) + int (length b)"
       "length tr = nat d"
    by blast
  then have "length tr \<le> length a + length b" by linarith
  with r(1) show ?thesis by (simp add: myers_diff_def)
qed

section \<open>Concrete runs\<close>

text \<open>
  C1. The search is claimed to end exactly when the furthest reach of some diagonal is
  the sink \<open>(M, N)\<close>, with \<open>x\<close> compared to the length of A and \<open>y\<close> to the length of B.
  The program compares \<open>x\<close> to the length of B and \<open>y\<close> to the length of A. For
  A = ["a"] and B = [] the sink is \<open>(1, 0)\<close>, and the search returns in round
  \<open>d = 1\<close> on diagonal \<open>k = -1\<close> at the point \<open>(0, 1)\<close>, before any diagonal has
  reached the sink. For A = ["a"] and B = ["x", "a"] the sink \<open>(1, 2)\<close> is reached in round
  1 on diagonal \<open>-1\<close> (the last entry of the second snapshot is 1), yet the search goes on and
  returns in round 2 at \<open>(2, 2)\<close>.
\<close>

theorem search_stops_off_sink:
  "myers_search (lines doc_a_old) (lines doc_empty_new) = Inr ([[0, 0, - 1]], 1, - 1, 0, 1)
   \<and> (int (length (lines doc_a_old)), int (length (lines doc_empty_new))) = (1, 0)
   \<and> myers_search (lines doc_a_old) (lines doc_xa) =
       Inr ([[0, 0, - 1, - 1, - 1, - 1, - 1], [0, 1, - 1, - 1, - 1, - 1, 1]], 2, 0, 2, 2)
   \<and> (int (length (lines doc_a_old)), int (length (lines doc_xa))) = (1, 2)"
  by code_simp

text \<open>
  C2. The number of edits that are not \<open>equal\<close> is claimed to be the least number of
  insertions and deletions turning A into B. For A = ["a","b","c"] and B = ["a","x","c"]
  that number is 2 (delete b, insert x), and the returned list has one such edit.
\<close>

theorem non_equal_count_below_distance:
  "map_sum id non_equal_count (myers_git_diff (lines doc_abc) (lines doc_axc)) = Inr 1
   \<and> indel_distance (lines doc_abc) (lines doc_axc) = 2"
  by code_simp

text \<open>
  C3. The \<open>old\<close> lines of the edits that are not inserts are claimed to be A, and the
  \<open>new\<close> lines of the edits that are not deletes to be B. For A = ["a","b","c"] and
  B = ["a","x","c"] the \<open>old\<close> lines are a and c only: line b of A is in no edit.
\<close>

theorem old_lines_not_reproduced:
  "map_sum id old_refs (myers_git_diff (lines doc_abc) (lines doc_axc)) =
     Inr [Some \<lparr>num = 0, text_of = ''a''\<rparr>, Some \<lparr>num = 2, text_of = ''c''\<rparr>]
   \<and> map Some (lines doc_abc) =
       [Some \<lparr>num = 0, text_of = ''a''\<rparr>, Some \<lparr>num = 1, text_of = ''b''\<rparr>,
        Some \<lparr>num = 2, text_of = ''c''\<rparr>]
   \<and> map_sum id old_refs (myers_git_diff (lines doc_abc) (lines doc_axc)) \<noteq>
       Inr (map Some (lines doc_abc))"
  by code_simp

text \<open>
  C4. For A = [] and B = ["a"] the result is claimed to be one insert edit for line a of B
  and one printed hunk, with lines that are out of range resolved to absent and their
  moves kept. The sink is \<open>(0, 1)\<close>. The search reaches it in round 1 on diagonal
  \<open>-1\<close>, does not stop there, and returns on diagonal 1 at \<open>(1, 0)\<close> with the one snapshot
  of round 0. The backtracking numbers that snapshot 0, so it yields no move: the
  downward move \<open>(0, 0, 0, 1)\<close> that inserts a is lost. \<open>myers_git_diff\<close> returns the
  empty list and \<open>diff\<close> prints the three heading lines only. Had the move been yielded,
  the loop of \<open>myers_git_diff\<close> would have dropped it, since the old line is absent.
\<close>

theorem insert_into_empty_lost:
  "(int (length (lines doc_empty)), int (length (lines doc_a))) = (0, 1)
   \<and> myers_search (lines doc_empty) (lines doc_a) = Inr ([[0, 0, - 1]], 1, 1, 1, 0)
   \<and> myers_backtrack [[0, 0, - 1]] (lines doc_empty) (lines doc_a) = Inr []
   \<and> myers_git_diff (lines doc_empty) (lines doc_a) = Inr []
   \<and> diff doc_empty doc_a = Inr [''Difference between:'', ''a/ old.txt'', ''b/ new.txt'']
   \<and> classify_loop (lines doc_empty) (lines doc_a) [(0, 0, 0, 1)] [] = Inr []"
  by code_simp

text \<open>
  C5. Every edit that is not \<open>equal\<close> is claimed to lie in the printed window of exactly
  one hunk, also a single change past position 6 of the edit list. For two files of nine
  lines that differ in the eighth, the edit list has its only change at position 7; the
  one chunk is \<open>(0, 0)\<close>, its window covers the positions 0 to 6, and the printed hunk
  shows seven unchanged lines and no change. Wherever the single change is, the chunk is
  \<open>(0, 0)\<close>.
\<close>

theorem single_change_outside_window:
  "map_sum id (map edit_type) (myers_git_diff (lines doc_tail_old) (lines doc_tail_new)) =
     Inr [Equal, Equal, Equal, Equal, Equal, Equal, Equal, Insert, Equal]
   \<and> map_sum id diff_locs_of (myers_git_diff (lines doc_tail_old) (lines doc_tail_new)) = Inr [7]
   \<and> map_sum id chunks_of (myers_git_diff (lines doc_tail_old) (lines doc_tail_new)) = Inr [(0, 0)]
   \<and> map_sum id (\<lambda>es. covers es (0, 0) 7)
        (myers_git_diff (lines doc_tail_old) (lines doc_tail_new)) = Inr False
   \<and> diff doc_tail_old doc_tail_new =
       Inr [''Difference between:'', ''a/ old.txt'', ''b/ new.txt'',
            ''@@   -0,7 +0,7   @@'',
            ''     l1    '' @ TERM_COLORS_end, ''     l2    '' @ TERM_COLORS_end,
            ''     l3    '' @ TERM_COLORS_end, ''     l4    '' @ TERM_COLORS_end,
            ''     l5    '' @ TERM_COLORS_end, ''     l6    '' @ TERM_COLORS_end,
            ''     l7    '' @ TERM_COLORS_end, []]
   \<and> chunk_locs_of [p] = [(0, 0)]"
proof -
  have run:
    "map_sum id (map edit_type) (myers_git_diff (lines doc_tail_old) (lines doc_tail_new)) =
       Inr [Equal, Equal, Equal, Equal, Equal, Equal, Equal, Insert, Equal]
     \<and> map_sum id diff_locs_of (myers_git_diff (lines doc_tail_old) (lines doc_tail_new)) = Inr [7]
     \<and> map_sum id chunks_of (myers_git_diff (lines doc_tail_old) (lines doc_tail_new)) = Inr [(0, 0)]
     \<and> map_sum id (\<lambda>es. covers es (0, 0) 7)
          (myers_git_diff (lines doc_tail_old) (lines doc_tail_new)) = Inr False
     \<and> diff doc_tail_old doc_tail_new =
         Inr [''Difference between:'', ''a/ old.txt'', ''b/ new.txt'',
              ''@@   -0,7 +0,7   @@'',
              ''     l1    '' @ TERM_COLORS_end, ''     l2    '' @ TERM_COLORS_end,
              ''     l3    '' @ TERM_COLORS_end, ''     l4    '' @ TERM_COLORS_end,
              ''     l5    '' @ TERM_COLORS_end, ''     l6    '' @ TERM_COLORS_end,
              ''     l7    '' @ TERM_COLORS_end, []]"
    by code_simp
  have "chunk_locs_of [p] = [(0, 0)]"
    by (simp add: chunk_locs_of_def)
  with run show ?thesis by simp
qed

text \<open>
  C6. Diffing a sequence against itself is claimed to give only \<open>equal\<close> edits and no
  hunk, for every sequence. For the empty sequence the run ends with \<open>IndexError\<close>: the
  array \<open>v\<close> has one entry and the program writes \<open>v[1]\<close>. (For every sequence that is
  not empty the claim holds, by \<open>myers_git_diff_self\<close> and \<open>diff_self\<close>.)
\<close>

theorem identical_empty_raises:
  "myers_git_diff (lines doc_empty) (lines doc_empty) = Inl IndexError
   \<and> diff doc_empty doc_empty = Inl IndexError"
  by code_simp



text \<open>
  C8. Two changes with more than 13 unchanged lines between them are claimed to be
  printed as two hunks. For two files of sixteen lines that differ in the first and in
  the last line, the edit list has an insert at position 0, fourteen \<open>equal\<close> edits and a
  delete at position 15; the program builds the one chunk \<open>(0, 15)\<close> and prints one hunk.
  Whatever the two positions are, two changes give one chunk from the first to the second.
\<close>

theorem far_changes_one_hunk:
  "map_sum id (map edit_type) (myers_git_diff (lines doc_far_old) (lines doc_far_new)) =
     Inr [Insert, Equal, Equal, Equal, Equal, Equal, Equal, Equal, Equal, Equal, Equal, Equal,
          Equal, Equal, Equal, Delete]
   \<and> map_sum id diff_locs_of (myers_git_diff (lines doc_far_old) (lines doc_far_new)) =
       Inr [0, 15]
   \<and> map_sum id chunks_of (myers_git_diff (lines doc_far_old) (lines doc_far_new)) =
       Inr [(0, 15)]
   \<and> map_sum id (\<lambda>out. length (filter is_header out)) (diff doc_far_old doc_far_new) = Inr 1
   \<and> chunk_locs_of [p, q] = [(p, q)]"
proof -
  have run:
    "map_sum id (map edit_type) (myers_git_diff (lines doc_far_old) (lines doc_far_new)) =
       Inr [Insert, Equal, Equal, Equal, Equal, Equal, Equal, Equal, Equal, Equal, Equal, Equal,
            Equal, Equal, Equal, Delete]
     \<and> map_sum id diff_locs_of (myers_git_diff (lines doc_far_old) (lines doc_far_new)) =
         Inr [0, 15]
     \<and> map_sum id chunks_of (myers_git_diff (lines doc_far_old) (lines doc_far_new)) =
         Inr [(0, 15)]
     \<and> map_sum id (\<lambda>out. length (filter is_header out)) (diff doc_far_old doc_far_new) = Inr 1"
    by code_simp
  have "chunk_locs_of [p, q] = [(p, q)]"
    by (simp add: chunk_locs_of_def)
  with run show ?thesis by simp
qed

text \<open>
  C9. The search is claimed to return a trace for every pair of sequences and never to
  raise. For two empty sequences the array \<open>v\<close> has \<open>2 * 0 + 1 = 1\<close> entry, and the
  assignment \<open>v[1] = 0\<close> raises \<open>IndexError\<close> before the first round. The exception at
  the end of the function, for a search that did not end in \<open>M + N + 1\<close> rounds, is raised
  for no input (for every other input the search returns, by \<open>myers_diff_returns\<close>).
\<close>

theorem myers_diff_empty_raises:
  "myers_diff [] [] = Inl IndexError \<and> myers_search [] [] = Inl IndexError
   \<and> myers_diff a b \<noteq> Inl SESTooLong"
proof -
  have empty: "myers_diff [] [] = Inl IndexError \<and> myers_search [] [] = Inl IndexError"
    by code_simp
  have "myers_diff a b \<noteq> Inl SESTooLong"
  proof (cases "a \<noteq> [] \<or> b \<noteq> []")
    case True
    then show ?thesis using myers_diff_returns[of a b] by auto
  next
    case False
    with empty show ?thesis by simp
  qed
  with empty show ?thesis by simp
qed

end
